theory Spec2Isabelle
  imports Complex_Main "HOL-Library.Word"
begin

section \<open>JavaScript values\<close>

text \<open>
  The value \<^verbatim>\<open>JSON.parse\<close> returns is untyped at run time, so the stream decoder is
  modelled over JSON values. A number carries its numeric value (only whether it is zero
  is ever observed here); an object is the list of its own properties. The JavaScript
  value \<^verbatim>\<open>undefined\<close> is \<open>None\<close> of \<open>json option\<close>. Text is a \<open>string\<close> holding the
  UTF-8 bytes of the JavaScript string: the prefixes, separators and literals this code
  compares are ASCII, so a byte stands for a character wherever the code looks.
\<close>

datatype json =
    JNull
  | JBool bool
  | JNum rat
  | JStr string
  | JArr "json list"
  | JObj "(string \<times> json) list"

datatype js_error = SyntaxError string | TypeError string | Error string

text \<open>\<^verbatim>\<open>error.message\<close> of a thrown error.\<close>

fun error_message :: "js_error \<Rightarrow> string" where
  "error_message (SyntaxError m) = m"
| "error_message (TypeError m) = m"
| "error_message (Error m) = m"

text \<open>\<^verbatim>\<open>JSON.parse\<close> belongs to the runtime: it is a parameter, \<open>None\<close> where it throws.\<close>

type_synonym parser = "string \<Rightarrow> json option"

fun truthy_json :: "json \<Rightarrow> bool" where
  "truthy_json JNull = False"
| "truthy_json (JBool b) = b"
| "truthy_json (JNum n) = (n \<noteq> 0)"
| "truthy_json (JStr s) = (s \<noteq> [])"
| "truthy_json (JArr xs) = True"
| "truthy_json (JObj kvs) = True"

definition truthy :: "json option \<Rightarrow> bool" where
  "truthy v = (case v of None \<Rightarrow> False | Some j \<Rightarrow> truthy_json j)"

definition digit_char :: "nat \<Rightarrow> char" where
  "digit_char n = ''0123456789'' ! (n mod 10)"

text \<open>The decimal form of an array index, as a template literal or a property key has it.\<close>

fun show_nat :: "nat \<Rightarrow> string" where
  "show_nat n = (if n < 10 then [digit_char n] else show_nat (n div 10) @ [digit_char (n mod 10)])"

declare show_nat.simps [simp del]

text \<open>
  \<open>get_prop v k\<close> is \<^verbatim>\<open>v.k\<close> for a value \<open>v\<close> that is neither null nor undefined, for
  the keys this code reads (\<^verbatim>\<open>choices\<close>, \<^verbatim>\<open>delta\<close>, \<^verbatim>\<open>content\<close>, \<^verbatim>\<open>tool_calls\<close>, \<^verbatim>\<open>path\<close>):
  no prototype defines them, so only an object's own property answers.
  \<open>get_index v i\<close> is \<^verbatim>\<open>v[i]\<close>, read at index 0 only; on a string it is a one-character
  string, whose content nothing here reads.
\<close>

fun get_prop :: "json \<Rightarrow> string \<Rightarrow> json option" where
  "get_prop (JObj kvs) k = map_of kvs k"
| "get_prop v k = None"

fun get_index :: "json \<Rightarrow> nat \<Rightarrow> json option" where
  "get_index (JArr xs) i = (if i < length xs then Some (xs ! i) else None)"
| "get_index (JStr s) i = (if i < length s then Some (JStr [s ! i]) else None)"
| "get_index (JObj kvs) i = map_of kvs (show_nat i)"
| "get_index v i = None"

text \<open>Optional chaining \<^verbatim>\<open>v?.\<close>: undefined when \<open>v\<close> is null or undefined.\<close>

definition opt_chain :: "json option \<Rightarrow> (json \<Rightarrow> json option) \<Rightarrow> json option" where
  "opt_chain v f = (case v of None \<Rightarrow> None | Some JNull \<Rightarrow> None | Some j \<Rightarrow> f j)"

section \<open>The stream decoder (CopilotAPI.chatStream)\<close>

text \<open>
  \<^verbatim>\<open>new TextDecoder()\<close> with \<^verbatim>\<open>decode(value, { stream: true })\<close> is a transducer driven
  byte by byte: it keeps a state between calls (the bytes of an unfinished character) and
  emits text. It is a parameter: a step function from a state and a byte to the next
  state and the text emitted.
\<close>

type_synonym 'd text_decoder = "'d \<Rightarrow> 8 word \<Rightarrow> 'd \<times> string"

fun decode :: "'d text_decoder \<Rightarrow> 'd \<Rightarrow> 8 word list \<Rightarrow> 'd \<times> string" where
  "decode dec d [] = (d, [])"
| "decode dec d (b # bs) =
     (let (d1, out1) = dec d b; (d2, out2) = decode dec d1 bs in (d2, out1 @ out2))"

definition LF :: char where
  "LF = CHR 0x0A"

text \<open>\<^verbatim>\<open>buffer.split('\n')\<close>: one segment more than there are newlines.\<close>

fun split_nl :: "string \<Rightarrow> string list" where
  "split_nl [] = [[]]"
| "split_nl (c # cs) =
     (if c = LF then [] # split_nl cs
      else (case split_nl cs of [] \<Rightarrow> [[c]] | l # ls \<Rightarrow> (c # l) # ls))"

text \<open>\<^verbatim>\<open>lines.pop() || ''\<close> and what \<^verbatim>\<open>pop\<close> leaves in \<^verbatim>\<open>lines\<close>.\<close>

definition pop_or_empty :: "string list \<Rightarrow> string" where
  "pop_or_empty lines = (if lines = [] then [] else last lines)"

definition after_pop :: "string list \<Rightarrow> string list" where
  "after_pop lines = butlast lines"

record delta_event =
  ev_content :: "json option"
  ev_tool_calls :: "json option"

text \<open>
  \<^verbatim>\<open>parsed.choices?.[0]?.delta\<close>: reading \<^verbatim>\<open>choices\<close> of \<^verbatim>\<open>null\<close> throws a TypeError
  (inside the \<^verbatim>\<open>try\<close>).
\<close>

definition delta_of :: "json \<Rightarrow> js_error + json option" where
  "delta_of parsed =
     (case parsed of
        JNull \<Rightarrow> Inl (TypeError ''null is not an object'')
      | _ \<Rightarrow> Inr (opt_chain (opt_chain (get_prop parsed ''choices'') (\<lambda>c. get_index c 0))
                          (\<lambda>x. get_prop x ''delta'')))"

definition delta_prop :: "json option \<Rightarrow> string \<Rightarrow> json option" where
  "delta_prop delta k = (case delta of None \<Rightarrow> None | Some j \<Rightarrow> get_prop j k)"

text \<open>The delta of a parsed line as the guard sees it: undefined also when reading it
  throws.\<close>

definition line_delta :: "json \<Rightarrow> json option" where
  "line_delta parsed = (case delta_of parsed of Inl e \<Rightarrow> None | Inr delta \<Rightarrow> delta)"

text \<open>What one line of the \<^verbatim>\<open>for (const line of lines)\<close> loop does.\<close>

datatype line_result = Return | Yield delta_event | Skip

definition handle_line :: "parser \<Rightarrow> string \<Rightarrow> line_result" where
  "handle_line parse line =
     (if take 6 line = ''data: '' then
        (let data = drop 6 line in
         if data = ''[DONE]'' then Return
         else (case parse data of
                 None \<Rightarrow> Skip
               | Some parsed \<Rightarrow>
                   (case delta_of parsed of
                      Inl e \<Rightarrow> Skip
                    | Inr delta \<Rightarrow>
                        if truthy delta \<and>
                           (truthy (delta_prop delta ''content'') \<or>
                            truthy (delta_prop delta ''tool_calls''))
                        then Yield \<lparr>ev_content = delta_prop delta ''content'',
                                    ev_tool_calls = delta_prop delta ''tool_calls''\<rparr>
                        else Skip)))
      else Skip)"

text \<open>The events of a list of complete lines, and whether the sentinel ended the generator.\<close>

fun process_lines :: "parser \<Rightarrow> string list \<Rightarrow> delta_event list \<times> bool" where
  "process_lines parse [] = ([], False)"
| "process_lines parse (l # ls) =
     (case handle_line parse l of
        Return \<Rightarrow> ([], True)
      | Yield e \<Rightarrow> (let (es, stop) = process_lines parse ls in (e # es, stop))
      | Skip \<Rightarrow> process_lines parse ls)"

text \<open>
  The \<^verbatim>\<open>while (true)\<close> loop over \<^verbatim>\<open>reader.read()\<close>: the list holds the chunks read before
  \<^verbatim>\<open>done\<close>; the result is the sequence of events the generator yields.
\<close>

fun read_loop ::
  "parser \<Rightarrow> 'd text_decoder \<Rightarrow> 'd \<Rightarrow> string \<Rightarrow> 8 word list list \<Rightarrow> delta_event list" where
  "read_loop parse dec d buffer [] = []"
| "read_loop parse dec d buffer (v # rest) =
     (let (d1, out) = decode dec d v;
          lines = split_nl (buffer @ out);
          buffer1 = pop_or_empty lines;
          (evs, stop) = process_lines parse (after_pop lines)
      in if stop then evs else evs @ read_loop parse dec d1 buffer1 rest)"

definition chatStream :: "parser \<Rightarrow> 'd text_decoder \<Rightarrow> 'd \<Rightarrow> 8 word list list \<Rightarrow> delta_event list" where
  "chatStream parse dec d0 chunks = read_loop parse dec d0 [] chunks"

text \<open>The text a decoder emits for a whole byte sequence, and its complete lines.\<close>

definition decoded_text :: "'d text_decoder \<Rightarrow> 'd \<Rightarrow> 8 word list \<Rightarrow> string" where
  "decoded_text dec d bs = snd (decode dec d bs)"

definition complete_lines :: "string \<Rightarrow> string list" where
  "complete_lines s = after_pop (split_nl s)"

definition events_of_text :: "parser \<Rightarrow> string \<Rightarrow> delta_event list" where
  "events_of_text parse s = fst (process_lines parse (complete_lines s))"

section \<open>The tool-call accumulator (ChatTui.mergeToolCalls)\<close>

text \<open>
  An accumulated \<^verbatim>\<open>ToolCall\<close> has all its fields. An element of \<^verbatim>\<open>updates\<close> is a
  fragment off the wire: the code reads it with \<^verbatim>\<open>update.id || ...\<close> and
  \<^verbatim>\<open>update.function?.name\<close>, so each of its fields may be missing.
\<close>

record function_call =
  fn_name :: string
  fn_arguments :: string

record tool_call =
  call_id :: string
  call_type :: string
  call_function :: function_call

record function_fragment =
  frag_name :: "string option"
  frag_arguments :: "string option"

record tool_call_fragment =
  frag_id :: "string option"
  frag_function :: "function_fragment option"

text \<open>\<^verbatim>\<open>a || b\<close> for a string \<open>a\<close> that may be undefined: \<open>b\<close> unless \<open>a\<close> is a non-empty string.\<close>

definition or_else :: "string option \<Rightarrow> string \<Rightarrow> string" where
  "or_else a b = (case a of None \<Rightarrow> b | Some s \<Rightarrow> if s \<noteq> [] then s else b)"

text \<open>\<^verbatim>\<open>update.function?.name\<close> and \<^verbatim>\<open>update.function?.arguments\<close>.\<close>

definition update_name :: "tool_call_fragment \<Rightarrow> string option" where
  "update_name update = (case frag_function update of None \<Rightarrow> None | Some f \<Rightarrow> frag_name f)"

definition update_arguments :: "tool_call_fragment \<Rightarrow> string option" where
  "update_arguments update =
     (case frag_function update of None \<Rightarrow> None | Some f \<Rightarrow> frag_arguments f)"

text \<open>\<^verbatim>\<open>merged[index]\<close>, undefined past the end, and the assignment \<^verbatim>\<open>merged[index] = current\<close>.
  The index of \<^verbatim>\<open>forEach\<close> never passes the length of \<^verbatim>\<open>merged\<close> (lemma
  \<open>forEach_merge_length\<close> below), so an assignment outside the array is one at its end.\<close>

definition get_at :: "'a list \<Rightarrow> nat \<Rightarrow> 'a option" where
  "get_at xs i = (if i < length xs then Some (xs ! i) else None)"

definition set_at :: "'a list \<Rightarrow> nat \<Rightarrow> 'a \<Rightarrow> 'a list" where
  "set_at xs i v = (if i < length xs then xs[i := v] else xs @ [v])"

text \<open>The body of the \<^verbatim>\<open>forEach\<close> callback: the record stored at \<^verbatim>\<open>merged[index]\<close>.\<close>

definition merge_one :: "nat \<Rightarrow> tool_call option \<Rightarrow> tool_call_fragment \<Rightarrow> tool_call" where
  "merge_one index slot update =
     (let current =
            (case slot of
               Some c \<Rightarrow> c
             | None \<Rightarrow> \<lparr>call_id = or_else (frag_id update) (''tool-'' @ show_nat index),
                        call_type = ''function'',
                        call_function = \<lparr>fn_name = [], fn_arguments = []\<rparr>\<rparr>);
          incomingArgs = or_else (update_arguments update) []
      in current
           \<lparr>call_id := or_else (frag_id update) (call_id current),
            call_function :=
              \<lparr>fn_name = or_else (update_name update) (fn_name (call_function current)),
               fn_arguments =
                 or_else (Some (fn_arguments (call_function current))) [] @ incomingArgs\<rparr>\<rparr>)"

fun forEach_merge :: "nat \<Rightarrow> tool_call list \<Rightarrow> tool_call_fragment list \<Rightarrow> tool_call list" where
  "forEach_merge index merged [] = merged"
| "forEach_merge index merged (update # rest) =
     forEach_merge (Suc index)
       (set_at merged index (merge_one index (get_at merged index) update)) rest"

definition mergeToolCalls :: "tool_call list \<Rightarrow> tool_call_fragment list \<Rightarrow> tool_call list" where
  "mergeToolCalls existing updates = forEach_merge 0 existing updates"

text \<open>The fragments that reach slot \<open>k\<close>, in arrival order: the \<open>k\<close>-th of each batch that
  has one.\<close>

definition slot_fragments :: "nat \<Rightarrow> tool_call_fragment list list \<Rightarrow> tool_call_fragment list" where
  "slot_fragments k batches = map (\<lambda>b. b ! k) (filter (\<lambda>b. k < length b) batches)"

text \<open>The non-empty values among those supplied, in order: the ones \<^verbatim>\<open>v || ...\<close> lets through.\<close>

definition supplied :: "string option list \<Rightarrow> string list" where
  "supplied vs = concat (map (\<lambda>v. case v of None \<Rightarrow> [] | Some s \<Rightarrow> if s \<noteq> [] then [s] else []) vs)"

section \<open>The orchestrator (ChatTui.streamAssistantResponse)\<close>

datatype role = User | Assistant | System | Function

record message =
  msg_role :: role
  msg_content :: string
  msg_tool_calls :: "tool_call list option"
  msg_tool_call_id :: "string option"
  msg_name :: "string option"

text \<open>What \<^verbatim>\<open>chatStream\<close> yields, by its declared type.\<close>

record chunk =
  chunk_content :: "string option"
  chunk_tool_calls :: "tool_call_fragment list option"

text \<open>
  The world around the orchestrator: what a streaming request with a given transcript
  yields (or the error it throws), the file system behind \<^verbatim>\<open>readFileSync\<close>, and
  \<^verbatim>\<open>JSON.parse\<close>.
\<close>

record world =
  stream_reply :: "message list \<Rightarrow> js_error + chunk list"
  readFileSync :: "string \<Rightarrow> js_error + string"
  json_parse :: parser

text \<open>
  The part of \<^verbatim>\<open>ChatTui\<close> modelled here: the transcript, the texts handed to
  \<^verbatim>\<open>addSystemMessage\<close>, and the transcripts sent by the \<^verbatim>\<open>chatStream\<close> calls made so
  far. The renderer's nodes are left out.
\<close>

record tui =
  chatHistory :: "message list"
  system_notes :: "string list"
  stream_requests :: "message list list"

definition maxToolPasses :: nat where
  "maxToolPasses = 4"

definition depth_limit_note :: string where
  "depth_limit_note =
     ''Reached tool-call depth limit '' @ [CHR 0xE2, CHR 0x80, CHR 0x94] @
     '' aborting conversation state.''"

definition addSystemMessage :: "string \<Rightarrow> tui \<Rightarrow> tui" where
  "addSystemMessage text st = st\<lparr>system_notes := system_notes st @ [text]\<rparr>"

text \<open>
  \<^verbatim>\<open>trimEnd\<close> removes trailing WhiteSpace and LineTerminator characters of ECMAScript;
  here each in UTF-8.
\<close>

definition whitespace :: "string list" where
  "whitespace =
     [[CHR 0x09], [CHR 0x0A], [CHR 0x0B], [CHR 0x0C], [CHR 0x0D], [CHR 0x20],
      [CHR 0xC2, CHR 0xA0], [CHR 0xE1, CHR 0x9A, CHR 0x80],
      [CHR 0xE2, CHR 0x80, CHR 0x80], [CHR 0xE2, CHR 0x80, CHR 0x81],
      [CHR 0xE2, CHR 0x80, CHR 0x82], [CHR 0xE2, CHR 0x80, CHR 0x83],
      [CHR 0xE2, CHR 0x80, CHR 0x84], [CHR 0xE2, CHR 0x80, CHR 0x85],
      [CHR 0xE2, CHR 0x80, CHR 0x86], [CHR 0xE2, CHR 0x80, CHR 0x87],
      [CHR 0xE2, CHR 0x80, CHR 0x88], [CHR 0xE2, CHR 0x80, CHR 0x89],
      [CHR 0xE2, CHR 0x80, CHR 0x8A], [CHR 0xE2, CHR 0x80, CHR 0xA8],
      [CHR 0xE2, CHR 0x80, CHR 0xA9], [CHR 0xE2, CHR 0x80, CHR 0xAF],
      [CHR 0xE2, CHR 0x81, CHR 0x9F], [CHR 0xE3, CHR 0x80, CHR 0x80],
      [CHR 0xEF, CHR 0xBB, CHR 0xBF]]"

definition ends_with :: "string \<Rightarrow> string \<Rightarrow> bool" where
  "ends_with s w = (length w \<le> length s \<and> drop (length s - length w) s = w)"

function trimEnd :: "string \<Rightarrow> string" where
  "trimEnd s =
     (case filter (ends_with s) whitespace of
        [] \<Rightarrow> s
      | w # ws \<Rightarrow> trimEnd (take (length s - length w) s))"
  by pat_completeness auto
termination
proof (relation "measure length")
  show "wf (measure length)" by simp
next
  fix s :: string and w ws
  assume "filter (ends_with s) whitespace = w # ws"
  then have "w \<in> set (filter (ends_with s) whitespace)" by simp
  then have "w \<in> set whitespace" and e: "ends_with s w" by auto
  then have "w \<noteq> []" by (auto simp: whitespace_def)
  with e have "length s - length w < length s"
    by (cases w) (auto simp: ends_with_def)
  then show "(take (length s - length w) s, s) \<in> measure length" by simp
qed

declare trimEnd.simps [simp del]

text \<open>The body of the \<^verbatim>\<open>for await\<close> loop, on the accumulated text and the pending calls.\<close>

definition consume_chunk :: "string \<times> tool_call list \<Rightarrow> chunk \<Rightarrow> string \<times> tool_call list" where
  "consume_chunk acc c =
     (let (accumulatedText, pendingToolCalls) = acc;
          pendingToolCalls1 =
            (case chunk_tool_calls c of
               None \<Rightarrow> pendingToolCalls
             | Some tcs \<Rightarrow>
                 if length tcs > 0 then mergeToolCalls pendingToolCalls tcs else pendingToolCalls);
          accumulatedText1 =
            (case chunk_content c of
               None \<Rightarrow> accumulatedText
             | Some s \<Rightarrow> if s \<noteq> [] then accumulatedText @ s else accumulatedText)
      in (accumulatedText1, pendingToolCalls1))"

definition consume :: "chunk list \<Rightarrow> string \<times> tool_call list" where
  "consume chunks = foldl consume_chunk ([], []) chunks"

fun typeof :: "json option \<Rightarrow> string" where
  "typeof None = ''undefined''"
| "typeof (Some JNull) = ''object''"
| "typeof (Some (JBool b)) = ''boolean''"
| "typeof (Some (JNum n)) = ''number''"
| "typeof (Some (JStr s)) = ''string''"
| "typeof (Some (JArr xs)) = ''object''"
| "typeof (Some (JObj kvs)) = ''object''"

definition parseToolArguments :: "parser \<Rightarrow> tool_call \<Rightarrow> json" where
  "parseToolArguments parse toolCall =
     (let raw = or_else (Some (fn_arguments (call_function toolCall))) ''{}''
      in case parse raw of
           None \<Rightarrow> JObj []
         | Some parsed \<Rightarrow>
             if truthy_json parsed \<and> typeof (Some parsed) = ''object'' then parsed else JObj [])"

text \<open>The \<^verbatim>\<open>try\<close> block of \<^verbatim>\<open>handleReadFile\<close>, and the function with its \<^verbatim>\<open>catch\<close>.\<close>

definition handleReadFile_try :: "world \<Rightarrow> tool_call \<Rightarrow> json option \<Rightarrow> js_error + string" where
  "handleReadFile_try w toolCall args =
     (let parameters =
            (case args of
               None \<Rightarrow> parseToolArguments (json_parse w) toolCall
             | Some JNull \<Rightarrow> parseToolArguments (json_parse w) toolCall
             | Some a \<Rightarrow> a);
          pathArg = get_prop parameters ''path''
      in if \<not> truthy pathArg \<or> typeof pathArg \<noteq> ''string''
         then Inl (Error ''read_file requires a valid path argument'')
         else (case pathArg of
                 Some (JStr p) \<Rightarrow> readFileSync w p
               | _ \<Rightarrow> Inl (TypeError ''path is not a string'')))"

definition handleReadFile :: "world \<Rightarrow> tool_call \<Rightarrow> json option \<Rightarrow> string" where
  "handleReadFile w toolCall args =
     (case handleReadFile_try w toolCall args of
        Inr content \<Rightarrow> content
      | Inl e \<Rightarrow> ''Error reading file: '' @ error_message e)"

text \<open>
  The \<^verbatim>\<open>for (const toolCall of toolCalls)\<close> loop. \<^verbatim>\<open>describeToolResult\<close> and
  \<^verbatim>\<open>createMessageNode\<close> only build what the terminal shows (the first catches every error
  of the summary request it may send) and are left out. \<open>tool_response\<close> is the text
  \<^verbatim>\<open>toolResponse\<close> of one iteration.
\<close>

definition tool_response :: "world \<Rightarrow> tool_call \<Rightarrow> string" where
  "tool_response w toolCall =
     (let toolName = fn_name (call_function toolCall);
          args = parseToolArguments (json_parse w) toolCall
      in if toolName = ''read_file'' then handleReadFile w toolCall (Some args)
         else ''Tool '' @ toolName @ '' is not implemented in the TUI.'')"

text \<open>The message pushed for one tool call, and the assistant's messages.\<close>

definition tool_result :: "world \<Rightarrow> tool_call \<Rightarrow> message" where
  "tool_result w toolCall =
     \<lparr>msg_role = Function,
      msg_content = tool_response w toolCall,
      msg_tool_calls = None,
      msg_tool_call_id = Some (call_id toolCall),
      msg_name = Some (fn_name (call_function toolCall))\<rparr>"

definition assistant_message :: "string \<Rightarrow> tool_call list option \<Rightarrow> message" where
  "assistant_message content calls =
     \<lparr>msg_role = Assistant, msg_content = content, msg_tool_calls = calls,
      msg_tool_call_id = None, msg_name = None\<rparr>"

definition push :: "message \<Rightarrow> tui \<Rightarrow> tui" where
  "push m st = st\<lparr>chatHistory := chatHistory st @ [m]\<rparr>"

fun resolveToolCalls :: "world \<Rightarrow> tool_call list \<Rightarrow> tui \<Rightarrow> tui" where
  "resolveToolCalls w [] st = st"
| "resolveToolCalls w (toolCall # rest) st =
     resolveToolCalls w rest (push (tool_result w toolCall) st)"

text \<open>
  The \<^verbatim>\<open>while (safetyCounter < maxToolPasses)\<close> loop; the counter is the value before the
  increment at the head of the body. \<open>Inl\<close> is an error thrown out of the function (by
  \<^verbatim>\<open>chatStream\<close>).
\<close>

function pass_loop :: "world \<Rightarrow> nat \<Rightarrow> tui \<Rightarrow> js_error + tui" where
  "pass_loop w safetyCounter st =
     (if safetyCounter < maxToolPasses then
        (let st1 = st\<lparr>stream_requests := stream_requests st @ [chatHistory st]\<rparr>
         in case stream_reply w (chatHistory st) of
              Inl e \<Rightarrow> Inl e
            | Inr chunks \<Rightarrow>
                (let (accumulatedText, pendingToolCalls) = consume chunks
                 in if length pendingToolCalls = 0 then
                      (let finalText = trimEnd accumulatedText
                       in if length finalText = 0 then Inr st1
                          else Inr (push (assistant_message finalText None) st1))
                    else
                      pass_loop w (safetyCounter + 1)
                        (resolveToolCalls w pendingToolCalls
                           (push (assistant_message accumulatedText (Some pendingToolCalls))
                              st1))))
      else Inr (addSystemMessage depth_limit_note st))"
  by pat_completeness auto
termination
  by (relation "measure (\<lambda>(w, safetyCounter, st). maxToolPasses - safetyCounter)") auto

declare pass_loop.simps [simp del]

definition streamAssistantResponse :: "world \<Rightarrow> tui \<Rightarrow> js_error + tui" where
  "streamAssistantResponse w st = pass_loop w 0 st"


section \<open>The device-authorization login (login)\<close>

text \<open>
  \<^verbatim>\<open>AuthGithubCopilot.authorize\<close> and \<^verbatim>\<open>poll\<close> are network calls: parameters. \<open>poll_call k\<close>
  answers the call made after \<open>k\<close> earlier ones. The trace records the sleeps (in
  milliseconds) and the poll calls, in order.
\<close>

record device_info =
  device :: string
  user :: string
  verification :: string
  interval :: nat

record auth_env =
  authorize :: "js_error + device_info"
  poll_call :: "nat \<Rightarrow> string \<Rightarrow> js_error + string"

datatype login_event = Sleep nat | Poll string

datatype login_outcome = LoggedIn | Exit1

definition maxAttempts :: nat where
  "maxAttempts = 120"

function poll_loop ::
  "auth_env \<Rightarrow> device_info \<Rightarrow> string \<Rightarrow> nat \<Rightarrow> login_event list \<Rightarrow>
     (js_error + string) \<times> login_event list" where
  "poll_loop env deviceInfo status attempts trace =
     (if status = ''pending'' \<and> attempts < maxAttempts then
        (let trace1 = trace @ [Sleep (interval deviceInfo * 1000), Poll (device deviceInfo)]
         in case poll_call env attempts (device deviceInfo) of
              Inl e \<Rightarrow> (Inl e, trace1)
            | Inr status1 \<Rightarrow> poll_loop env deviceInfo status1 (attempts + 1) trace1)
      else (Inr status, trace))"
  by pat_completeness auto
termination
  by (relation "measure (\<lambda>(env, deviceInfo, status, attempts, trace). maxAttempts - attempts)")
    auto

declare poll_loop.simps [simp del]

definition login :: "auth_env \<Rightarrow> login_outcome \<times> login_event list" where
  "login env =
     (case authorize env of
        Inl e \<Rightarrow> (Exit1, [])
      | Inr deviceInfo \<Rightarrow>
          (case poll_loop env deviceInfo ''pending'' 0 [] of
             (Inl e, trace) \<Rightarrow> (Exit1, trace)
           | (Inr status, trace) \<Rightarrow>
               if status = ''complete'' then (LoggedIn, trace) else (Exit1, trace)))"

definition poll_calls :: "login_event list \<Rightarrow> nat" where
  "poll_calls trace = length (filter (\<lambda>e. case e of Poll d \<Rightarrow> True | Sleep ms \<Rightarrow> False) trace)"

definition slept_ms :: "login_event list \<Rightarrow> nat" where
  "slept_ms trace = sum_list (map (\<lambda>e. case e of Sleep ms \<Rightarrow> ms | Poll d \<Rightarrow> 0) trace)"

section \<open>Concrete inputs\<close>

text \<open>
  Instances of the parameters for running the definitions: \<^verbatim>\<open>JSON.parse\<close> on the payloads
  used below (any other text stands for a malformed payload), and a decoder for ASCII
  streams, which emits the character of each byte.
\<close>

definition parse_examples :: parser where
  \<open>parse_examples s =
     (if s = ''{"choices":[{"delta":{"content":"hi"}}]}'' then
        Some (JObj [(''choices'', JArr [JObj [(''delta'', JObj [(''content'', JStr ''hi'')])]])])
      else if s = ''{"choices":[{"delta":{"content":"","tool_calls":[]}}]}'' then
        Some (JObj [(''choices'', JArr [JObj [(''delta'',
                JObj [(''content'', JStr ''''), (''tool_calls'', JArr [])])]])])
      else if s = ''{"path":"a.txt"}'' then Some (JObj [(''path'', JStr ''a.txt'')])
      else if s = ''{}'' then Some (JObj [])
      else None)\<close>

definition byte_decoder :: "unit text_decoder" where
  "byte_decoder d b = (d, [char_of (unat b)])"

definition bytes_of :: "string \<Rightarrow> 8 word list" where
  "bytes_of s = map (\<lambda>c. of_nat (of_char c)) s"

definition hi_line :: string where
  \<open>hi_line = ''data: {"choices":[{"delta":{"content":"hi"}}]}''\<close>

definition hi_event :: delta_event where
  "hi_event = \<lparr>ev_content = Some (JStr ''hi''), ev_tool_calls = None\<rparr>"

definition bad_line :: string where
  \<open>bad_line = ''data: {"choices":[{"del''\<close>

definition empty_delta_line :: string where
  \<open>empty_delta_line = ''data: {"choices":[{"delta":{"content":"","tool_calls":[]}}]}''\<close>

text \<open>More payloads: a line without a delta, and a delta whose fields are null.\<close>

definition parse_more :: parser where
  \<open>parse_more s =
     (if s = ''{"choices":[]}'' then Some (JObj [(''choices'', JArr [])])
      else if s = ''{"choices":[{"delta":{"content":null,"tool_calls":null}}]}'' then
        Some (JObj [(''choices'', JArr [JObj [(''delta'',
                JObj [(''content'', JNull), (''tool_calls'', JNull)])]])])
      else parse_examples s)\<close>

definition no_delta_line :: string where
  \<open>no_delta_line = ''data: {"choices":[]}''\<close>

definition null_fields_line :: string where
  \<open>null_fields_line = ''data: {"choices":[{"delta":{"content":null,"tool_calls":null}}]}''\<close>

text \<open>
  A fragment as the service sends it first, the call it accumulates to, a file system
  holding one file, a model that asks for the same tool call on every pass and one that
  answers in text, a transcript with one user message, fragments without any field, a
  device authorization that completes at the fourth poll, and the fragments of one call
  arriving in three batches.
\<close>

definition example_fragment :: tool_call_fragment where
  \<open>example_fragment =
     \<lparr>frag_id = Some ''call_1'',
      frag_function = Some \<lparr>frag_name = Some ''read_file'', frag_arguments = Some ''{"path":"a.txt"}''\<rparr>\<rparr>\<close>

definition example_call :: tool_call where
  \<open>example_call =
     \<lparr>call_id = ''call_1'', call_type = ''function'',
      call_function = \<lparr>fn_name = ''read_file'', fn_arguments = ''{"path":"a.txt"}''\<rparr>\<rparr>\<close>

definition tool_chunk :: chunk where
  "tool_chunk = \<lparr>chunk_content = None, chunk_tool_calls = Some [example_fragment]\<rparr>"

definition example_files :: "string \<Rightarrow> js_error + string" where
  "example_files p =
     (if p = ''a.txt'' then Inr ''hello''
      else Inl (Error (''ENOENT: no such file or directory, open '' @ p)))"

definition looping_world :: world where
  "looping_world =
     \<lparr>stream_reply = (\<lambda>h. Inr [tool_chunk]),
      readFileSync = example_files,
      json_parse = parse_examples\<rparr>"


definition user_turn :: tui where
  "user_turn =
     \<lparr>chatHistory = [\<lparr>msg_role = User, msg_content = ''read a.txt'', msg_tool_calls = None,
                      msg_tool_call_id = None, msg_name = None\<rparr>],
      system_notes = [], stream_requests = []\<rparr>"

definition anonymous_fragment :: tool_call_fragment where
  "anonymous_fragment = \<lparr>frag_id = None, frag_function = None\<rparr>"

definition example_auth :: auth_env where
  "example_auth =
     \<lparr>authorize = Inr \<lparr>device = ''dev-1'', user = ''ABCD-1234'',
                        verification = ''https://github.com/login/device'', interval = 5\<rparr>,
      poll_call = (\<lambda>k d. if k < 3 then Inr ''pending'' else Inr ''complete'')\<rparr>"

definition example_batches :: "tool_call_fragment list list" where
  \<open>example_batches =
     [[\<lparr>frag_id = Some ''call_1'',
        frag_function = Some \<lparr>frag_name = Some ''read_file'', frag_arguments = Some ''''\<rparr>\<rparr>],
      [\<lparr>frag_id = None,
        frag_function = Some \<lparr>frag_name = None, frag_arguments = Some ''{"path":''\<rparr>\<rparr>],
      [\<lparr>frag_id = Some '''',
        frag_function = Some \<lparr>frag_name = Some '''', frag_arguments = Some ''"a.txt"}''\<rparr>\<rparr>]]\<close>

section \<open>Decoder lemmas\<close>

lemma decode_append:
  "decode dec d (xs @ ys) =
     (let (d1, out1) = decode dec d xs; (d2, out2) = decode dec d1 ys in (d2, out1 @ out2))"
  by (induction xs arbitrary: d) (auto split: prod.splits)

lemma split_nl_not_Nil: "split_nl s \<noteq> []"
  by (induction s) (auto split: list.splits)

lemma split_nl_no_LF: "LF \<notin> set s \<Longrightarrow> split_nl s = [s]"
  by (induction s) auto

lemma last_split_nl_no_LF: "LF \<notin> set (last (split_nl s))"
  by (induction s) (auto simp: split_nl_not_Nil split: list.splits)

lemma split_nl_append:
  "split_nl (a @ b) = butlast (split_nl a) @ split_nl (last (split_nl a) @ b)"
proof (induction a)
  case Nil
  show ?case by simp
next
  case (Cons c cs)
  show ?case
  proof (cases "c = LF")
    case True
    with Cons show ?thesis by (simp add: split_nl_not_Nil)
  next
    case False
    obtain l ls where s: "split_nl cs = l # ls"
      using split_nl_not_Nil [of cs] by (cases "split_nl cs") auto
    show ?thesis
    proof (cases ls)
      case Nil
      with s False Cons show ?thesis by simp
    next
      case (Cons l' ls')
      with s False Cons.IH show ?thesis by simp
    qed
  qed
qed

lemma process_lines_append:
  "process_lines parse (xs @ ys) =
     (case process_lines parse xs of
        (e1, True) \<Rightarrow> (e1, True)
      | (e1, False) \<Rightarrow> (let (e2, stop) = process_lines parse ys in (e1 @ e2, stop)))"
  by (induction xs) (auto split: line_result.splits prod.splits bool.splits)

lemma read_loop_text:
  "LF \<notin> set buffer \<Longrightarrow>
   read_loop parse dec d buffer chunks =
     fst (process_lines parse (complete_lines (buffer @ decoded_text dec d (concat chunks))))"
proof (induction chunks arbitrary: d buffer)
  case Nil
  then show ?case
    by (simp add: complete_lines_def after_pop_def decoded_text_def split_nl_no_LF)
next
  case (Cons v rest)
  obtain d1 out where dv: "decode dec d v = (d1, out)" by (cases "decode dec d v")
  obtain d2 out2 where dr: "decode dec d1 (concat rest) = (d2, out2)"
    by (cases "decode dec d1 (concat rest)")
  let ?lines = "split_nl (buffer @ out)"
  obtain evs stop where pl: "process_lines parse (butlast ?lines) = (evs, stop)"
    by (cases "process_lines parse (butlast ?lines)")
  have nl: "LF \<notin> set (pop_or_empty ?lines)"
    by (simp add: pop_or_empty_def split_nl_not_Nil last_split_nl_no_LF)
  have whole: "buffer @ decoded_text dec d (concat (v # rest)) = (buffer @ out) @ out2"
    by (simp add: decoded_text_def decode_append dv dr)
  have sp: "complete_lines ((buffer @ out) @ out2) =
              butlast ?lines @ complete_lines (last ?lines @ out2)"
    unfolding complete_lines_def after_pop_def
    by (subst split_nl_append) (simp add: butlast_append split_nl_not_Nil)
  have ih: "read_loop parse dec d1 (pop_or_empty ?lines) rest =
              fst (process_lines parse (complete_lines (last ?lines @ out2)))"
    using Cons.IH [OF nl, of d1]
    by (simp add: decoded_text_def dr pop_or_empty_def split_nl_not_Nil)
  show ?case
    unfolding whole sp process_lines_append
    by (simp add: dv pl ih after_pop_def split: prod.splits bool.splits)
qed

lemma chatStream_text:
  "chatStream parse dec d0 chunks =
     fst (process_lines parse (complete_lines (decoded_text dec d0 (concat chunks))))"
  using read_loop_text [of "[]" parse dec d0 chunks] by (simp add: chatStream_def)

lemma decode_byte_decoder: "decode byte_decoder () (bytes_of s) = ((), s)"
  by (induction s) (simp_all add: bytes_of_def byte_decoder_def unat_of_nat take_bit_eq_mod)

lemma decoded_text_bytes_of: "decoded_text byte_decoder () (bytes_of s) = s"
  by (simp add: decoded_text_def decode_byte_decoder)

lemma bytes_of_append: "bytes_of a @ bytes_of b = bytes_of (a @ b)"
  by (simp add: bytes_of_def)

lemma complete_lines_LF:
  "complete_lines (a @ LF # b) = complete_lines a @ [last (split_nl a)] @ complete_lines b"
proof -
  have "split_nl (l @ LF # b) = l # split_nl b" if "LF \<notin> set l" for l
    using that by (induction l) auto
  then have "split_nl (last (split_nl a) @ LF # b) = last (split_nl a) # split_nl b"
    using last_split_nl_no_LF by blast
  then show ?thesis
    unfolding complete_lines_def after_pop_def
    by (subst split_nl_append) (simp add: butlast_append split_nl_not_Nil)
qed

lemma complete_lines_boundary:
  assumes "pre = [] \<or> last pre = LF"
  shows "complete_lines (pre @ s) = complete_lines pre @ complete_lines s"
proof (cases "pre = []")
  case True
  then show ?thesis by (simp add: complete_lines_def after_pop_def)
next
  case False
  with assms obtain p where p: "pre = p @ [LF]"
    by (metis append_butlast_last_id)
  have "complete_lines (p @ LF # s) = complete_lines (p @ LF # []) @ complete_lines s"
    by (simp add: complete_lines_LF) (simp add: complete_lines_def after_pop_def)
  then show ?thesis by (simp add: p)
qed

lemma complete_lines_line: "LF \<notin> set l \<Longrightarrow> complete_lines (l @ LF # s) = l # complete_lines s"
  using complete_lines_LF [of l s]
  by (simp add: split_nl_no_LF) (simp add: complete_lines_def after_pop_def split_nl_no_LF)

lemma events_of_text_line:
  "LF \<notin> set l \<Longrightarrow>
   events_of_text parse (l @ LF # s) =
     (case handle_line parse l of
        Return \<Rightarrow> []
      | Yield e \<Rightarrow> e # events_of_text parse s
      | Skip \<Rightarrow> events_of_text parse s)"
  by (simp add: events_of_text_def complete_lines_line split: line_result.splits prod.splits)

lemma events_of_text_partial: "LF \<notin> set s \<Longrightarrow> events_of_text parse s = []"
  by (simp add: events_of_text_def complete_lines_def after_pop_def split_nl_no_LF)

lemma field_truthy_delta:
  "truthy (delta_prop delta k) \<Longrightarrow> truthy delta"
  by (cases delta; cases "the delta") (auto simp: truthy_def delta_prop_def)

lemma handle_line_hi: "handle_line parse_examples hi_line = Yield hi_event"
  by (simp add: handle_line_def parse_examples_def delta_of_def opt_chain_def delta_prop_def
      truthy_def hi_line_def hi_event_def)

lemma handle_line_bad: "handle_line parse_examples bad_line = Skip"
  by (simp add: handle_line_def parse_examples_def bad_line_def)

lemma no_LF_examples: "LF \<notin> set hi_line" "LF \<notin> set bad_line"
  by (simp_all add: LF_def hi_line_def bad_line_def)

section \<open>Decoder theorems\<close>

text \<open>
  C3. However the bytes of a stream are cut into chunks, also one byte per chunk, the
  decoder yields the events it yields when all the bytes arrive as one chunk: the events
  of the complete lines of the decoded text. A trailing partial line waits in the buffer
  and yields nothing.
\<close>

theorem chunk_boundary_independence:
  "chatStream parse dec d0 chunks = chatStream parse dec d0 [concat chunks] \<and>
   chatStream parse dec d0 (map (\<lambda>b. [b]) bytes) = chatStream parse dec d0 [bytes] \<and>
   chatStream parse dec d0 chunks =
     events_of_text parse (decoded_text dec d0 (concat chunks))"
proof -
  have whole: "chatStream parse dec d0 cs =
                 events_of_text parse (decoded_text dec d0 (concat cs))" for cs
    by (simp add: chatStream_text events_of_text_def)
  have one_shot: "chatStream parse dec d0 cs = chatStream parse dec d0 [concat cs]" for cs
    by (simp add: whole)
  have bytewise: "concat (map (\<lambda>b. [b]) bytes) = bytes"
    by (induction bytes) simp_all
  from one_shot [of "map (\<lambda>b. [b]) bytes"] bytewise one_shot [of chunks] whole [of chunks]
  show ?thesis by simp
qed

text \<open>A stream cut in the middle of a line, with a partial line at its end.\<close>

theorem chunk_boundary_independence_witness:
  "chatStream parse_examples byte_decoder ()
     [bytes_of (take 20 hi_line), bytes_of (drop 20 hi_line @ LF # bad_line)] = [hi_event]"
proof -
  let ?chunks = "[bytes_of (take 20 hi_line), bytes_of (drop 20 hi_line @ LF # bad_line)]"
  have cc: "concat ?chunks = bytes_of (hi_line @ LF # bad_line)"
    by (simp add: bytes_of_append del: append_take_drop_id)
      (simp flip: append_assoc)
  have "chatStream parse_examples byte_decoder () ?chunks =
          events_of_text parse_examples (decoded_text byte_decoder () (concat ?chunks))"
    using chunk_boundary_independence [of parse_examples byte_decoder "()" ?chunks] by blast
  also have "\<dots> = events_of_text parse_examples (hi_line @ LF # bad_line)"
    by (simp only: cc decoded_text_bytes_of)
  also have "\<dots> = [hi_event]"
    by (simp add: events_of_text_line events_of_text_partial no_LF_examples handle_line_hi)
  finally show ?thesis .
qed

text \<open>
  C4. When the decoded text holds a complete line \<^verbatim>\<open>data: [DONE]\<close>, the events are those of
  the lines before it: the sentinel line and everything after it, in this chunk or in
  later ones, yield nothing.
\<close>

theorem sentinel_ends_stream:
  assumes "decoded_text dec d0 (concat chunks) = pre @ ''data: [DONE]'' @ [LF] @ post"
    and "pre = [] \<or> last pre = LF"
  shows "chatStream parse dec d0 chunks = events_of_text parse pre"
proof -
  have l: "last (split_nl (''data: [DONE]'')) = ''data: [DONE]''"
    by (simp add: LF_def)
  have c: "complete_lines (''data: [DONE]'') = []"
    by (simp add: complete_lines_def after_pop_def LF_def)
  have "complete_lines (pre @ ''data: [DONE]'' @ [LF] @ post) =
          complete_lines pre @ [''data: [DONE]''] @ complete_lines post"
    using complete_lines_boundary [OF assms(2), of "''data: [DONE]'' @ LF # post"]
      complete_lines_LF [of "''data: [DONE]''" post] l c by simp
  moreover have "handle_line parse ''data: [DONE]'' = Return"
    by (simp add: handle_line_def)
  ultimately show ?thesis
    by (simp add: chatStream_text assms(1) events_of_text_def process_lines_append
        split: prod.splits bool.splits)
qed

text \<open>Two more lines follow the sentinel, one in a later chunk; neither yields an event.\<close>

theorem sentinel_ends_stream_witness:
  "chatStream parse_examples byte_decoder ()
     [bytes_of (hi_line @ [LF] @ ''data: [DONE]'' @ [LF] @ hi_line), bytes_of (LF # hi_line @ [LF])]
     = [hi_event]"
proof -
  let ?chunks = "[bytes_of (hi_line @ [LF] @ ''data: [DONE]'' @ [LF] @ hi_line),
                  bytes_of (LF # hi_line @ [LF])]"
  have "decoded_text byte_decoder () (concat ?chunks) =
          (hi_line @ [LF]) @ ''data: [DONE]'' @ [LF] @ (hi_line @ LF # hi_line @ [LF])"
    by (simp add: bytes_of_append decoded_text_bytes_of)
  then have "chatStream parse_examples byte_decoder () ?chunks =
               events_of_text parse_examples (hi_line @ [LF])"
    by (rule sentinel_ends_stream) simp
  also have "\<dots> = [hi_event]"
    by (simp add: events_of_text_line events_of_text_partial no_LF_examples handle_line_hi)
  finally show ?thesis .
qed

text \<open>
  C6. A framed line whose payload \<^verbatim>\<open>JSON.parse\<close> rejects (and that is not the sentinel) is
  skipped and nothing else: the events of the stream are those of the stream without that
  line.
\<close>

theorem malformed_line_skipped:
  assumes "decoded_text dec d0 (concat chunks) = pre @ bad @ [LF] @ post"
    and "pre = [] \<or> last pre = LF"
    and "LF \<notin> set bad"
    and "take 6 bad = ''data: ''"
    and "drop 6 bad \<noteq> ''[DONE]''"
    and "parse (drop 6 bad) = None"
  shows "chatStream parse dec d0 chunks = events_of_text parse (pre @ post)"
proof -
  have "complete_lines (pre @ bad @ [LF] @ post) =
          complete_lines pre @ [bad] @ complete_lines post"
    using complete_lines_boundary [OF assms(2), of "bad @ LF # post"]
      complete_lines_line [OF assms(3), of post] by simp
  moreover have "complete_lines (pre @ post) = complete_lines pre @ complete_lines post"
    by (rule complete_lines_boundary [OF assms(2)])
  moreover have "handle_line parse bad = Skip"
    using assms(4-6) by (simp add: handle_line_def)
  ultimately show ?thesis
    by (simp add: chatStream_text assms(1) events_of_text_def process_lines_append
        split: prod.splits bool.splits)
qed

text \<open>A malformed line between two valid ones: both valid lines yield their events.\<close>

theorem malformed_line_skipped_witness:
  "chatStream parse_examples byte_decoder ()
     [bytes_of (hi_line @ [LF] @ bad_line @ [LF] @ hi_line @ [LF])] = [hi_event, hi_event]"
proof -
  let ?chunks = "[bytes_of (hi_line @ [LF] @ bad_line @ [LF] @ hi_line @ [LF])]"
  have "decoded_text byte_decoder () (concat ?chunks) =
          (hi_line @ [LF]) @ bad_line @ [LF] @ (hi_line @ [LF])"
    by (simp add: decoded_text_bytes_of)
  then have "chatStream parse_examples byte_decoder () ?chunks =
               events_of_text parse_examples ((hi_line @ [LF]) @ (hi_line @ [LF]))"
    by (rule malformed_line_skipped)
      (simp_all add: no_LF_examples, simp_all add: bad_line_def parse_examples_def)
  also have "\<dots> = [hi_event, hi_event]"
    by (simp add: events_of_text_line events_of_text_partial no_LF_examples handle_line_hi)
  finally show ?thesis .
qed

text \<open>
  C5, as the code has it. A framed line that parses (and is not the sentinel) yields an
  event exactly when its delta has a truthy \<^verbatim>\<open>content\<close> or a truthy \<^verbatim>\<open>tool_calls\<close>, and the
  event carries both fields as they are; a line without a delta yields none. Where a
  truthy \<^verbatim>\<open>content\<close> is text and a truthy \<^verbatim>\<open>tool_calls\<close> is a list, as the declared type has
  them (absent and null fields included), that is: exactly when the delta carries
  non-empty text or a list of tool-call fragments, whatever its length.
\<close>

theorem delta_event_iff:
  assumes "take 6 line = ''data: ''" and "drop 6 line \<noteq> ''[DONE]''"
    and "parse (drop 6 line) = Some parsed"
  shows "handle_line parse line =
       (if truthy (delta_prop (line_delta parsed) ''content'') \<or>
           truthy (delta_prop (line_delta parsed) ''tool_calls'')
        then Yield \<lparr>ev_content = delta_prop (line_delta parsed) ''content'',
                    ev_tool_calls = delta_prop (line_delta parsed) ''tool_calls''\<rparr>
        else Skip) \<and>
     ((truthy (delta_prop (line_delta parsed) ''content'') \<longrightarrow>
         (\<exists>s. delta_prop (line_delta parsed) ''content'' = Some (JStr s))) \<and>
      (truthy (delta_prop (line_delta parsed) ''tool_calls'') \<longrightarrow>
         (\<exists>xs. delta_prop (line_delta parsed) ''tool_calls'' = Some (JArr xs))) \<longrightarrow>
      ((\<exists>e. handle_line parse line = Yield e) \<longleftrightarrow>
         (\<exists>s. delta_prop (line_delta parsed) ''content'' = Some (JStr s) \<and> s \<noteq> []) \<or>
         (\<exists>xs. delta_prop (line_delta parsed) ''tool_calls'' = Some (JArr xs))))"
proof -
  let ?c = "delta_prop (line_delta parsed) ''content''"
  let ?t = "delta_prop (line_delta parsed) ''tool_calls''"
  have guard: "handle_line parse line =
       (if truthy ?c \<or> truthy ?t then Yield \<lparr>ev_content = ?c, ev_tool_calls = ?t\<rparr> else Skip)"
  proof (cases "delta_of parsed")
    case (Inl e)
    then have "line_delta parsed = None" by (simp add: line_delta_def)
    with Inl assms show ?thesis
      by (simp add: handle_line_def delta_prop_def truthy_def)
  next
    case (Inr delta)
    then have d: "line_delta parsed = delta" by (simp add: line_delta_def)
    show ?thesis
      using assms Inr field_truthy_delta [of delta "''content''"]
        field_truthy_delta [of delta "''tool_calls''"]
      by (auto simp: handle_line_def d)
  qed
  have content: "truthy ?c \<longleftrightarrow> (\<exists>s. ?c = Some (JStr s) \<and> s \<noteq> [])"
    if "truthy ?c \<longrightarrow> (\<exists>s. ?c = Some (JStr s))"
    using that by (auto simp: truthy_def)
  have calls: "truthy ?t \<longleftrightarrow> (\<exists>xs. ?t = Some (JArr xs))"
    if "truthy ?t \<longrightarrow> (\<exists>xs. ?t = Some (JArr xs))"
    using that by (auto simp: truthy_def)
  have "(\<exists>e. handle_line parse line = Yield e) \<longleftrightarrow> truthy ?c \<or> truthy ?t"
    by (simp add: guard)
  with guard content calls show ?thesis by blast
qed

text \<open>A line with text, a line without a delta, a delta with null fields, and a delta with
  empty text and an empty list.\<close>

theorem delta_event_iff_witness:
  "handle_line parse_more hi_line = Yield hi_event \<and>
   handle_line parse_more no_delta_line = Skip \<and>
   handle_line parse_more null_fields_line = Skip \<and>
   (\<exists>e. handle_line parse_more empty_delta_line = Yield e)"
proof -
  have "handle_line parse_more hi_line = Yield hi_event"
    using delta_event_iff [of hi_line parse_more
        "JObj [(''choices'', JArr [JObj [(''delta'', JObj [(''content'', JStr ''hi'')])]])]",
        THEN conjunct1]
    by (simp add: parse_more_def parse_examples_def hi_line_def line_delta_def delta_of_def
        opt_chain_def delta_prop_def truthy_def hi_event_def)
  moreover have "handle_line parse_more no_delta_line = Skip"
    using delta_event_iff [of no_delta_line parse_more "JObj [(''choices'', JArr [])]",
        THEN conjunct1]
    by (simp add: parse_more_def no_delta_line_def line_delta_def delta_of_def opt_chain_def
        delta_prop_def truthy_def)
  moreover have "handle_line parse_more null_fields_line = Skip"
    using delta_event_iff [of null_fields_line parse_more
        "JObj [(''choices'', JArr [JObj [(''delta'',
                JObj [(''content'', JNull), (''tool_calls'', JNull)])]])]",
        THEN conjunct1]
    by (simp add: parse_more_def null_fields_line_def line_delta_def delta_of_def opt_chain_def
        delta_prop_def truthy_def)
  moreover have "\<exists>e. handle_line parse_more empty_delta_line = Yield e"
    using delta_event_iff [of empty_delta_line parse_more
        "JObj [(''choices'', JArr [JObj [(''delta'',
                JObj [(''content'', JStr []), (''tool_calls'', JArr [])])]])]",
        THEN conjunct2]
    by (simp add: parse_more_def parse_examples_def empty_delta_line_def line_delta_def
        delta_of_def opt_chain_def delta_prop_def truthy_def)
  ultimately show ?thesis by simp
qed

text \<open>
  C5 as stated fails: a line whose delta has empty text and an empty list of tool-call
  fragments does yield an event, since an empty array is truthy in
  \<^verbatim>\<open>delta.content || delta.tool_calls\<close>.
\<close>

theorem empty_delta_counterexample:
  "handle_line parse_examples empty_delta_line =
     Yield \<lparr>ev_content = Some (JStr []), ev_tool_calls = Some (JArr [])\<rparr> \<and>
   chatStream parse_examples byte_decoder () [bytes_of (empty_delta_line @ [LF])] =
     [\<lparr>ev_content = Some (JStr []), ev_tool_calls = Some (JArr [])\<rparr>]"
proof -
  have h: "handle_line parse_examples empty_delta_line =
             Yield \<lparr>ev_content = Some (JStr []), ev_tool_calls = Some (JArr [])\<rparr>"
    by (simp add: handle_line_def parse_examples_def delta_of_def opt_chain_def delta_prop_def
        truthy_def empty_delta_line_def)
  have n: "LF \<notin> set empty_delta_line"
    by (simp add: LF_def empty_delta_line_def)
  have "chatStream parse_examples byte_decoder () [bytes_of (empty_delta_line @ [LF])] =
          events_of_text parse_examples (empty_delta_line @ [LF])"
    by (simp add: chatStream_text events_of_text_def decoded_text_bytes_of)
  also have "\<dots> = [\<lparr>ev_content = Some (JStr []), ev_tool_calls = Some (JArr [])\<rparr>]"
    by (simp add: events_of_text_line [OF n] h events_of_text_partial)
  finally show ?thesis using h by simp
qed

section \<open>Accumulator lemmas\<close>

lemma set_at_length: "i \<le> length xs \<Longrightarrow> length (set_at xs i v) = max (length xs) (Suc i)"
  by (auto simp: set_at_def)

lemma set_at_nth:
  "i \<le> length xs \<Longrightarrow> k < max (length xs) (Suc i) \<Longrightarrow>
   set_at xs i v ! k = (if k = i then v else xs ! k)"
  by (auto simp: set_at_def nth_append)

lemma get_at_set_at:
  "i \<le> length xs \<Longrightarrow> i < k \<Longrightarrow> get_at (set_at xs i v) k = get_at xs k"
  by (auto simp: set_at_def get_at_def nth_append)

lemma forEach_merge_length:
  "i \<le> length merged \<Longrightarrow>
   length (forEach_merge i merged us) = max (length merged) (i + length us)"
proof (induction us arbitrary: i merged)
  case Nil
  then show ?case by simp
next
  case (Cons u us)
  then show ?case by (simp add: set_at_length)
qed

lemma forEach_merge_nth:
  "i \<le> length merged \<Longrightarrow> k < max (length merged) (i + length us) \<Longrightarrow>
   forEach_merge i merged us ! k =
     (if i \<le> k \<and> k < i + length us then merge_one k (get_at merged k) (us ! (k - i))
      else merged ! k)"
proof (induction us arbitrary: i merged)
  case Nil
  then show ?case by auto
next
  case (Cons u us)
  let ?m = "set_at merged i (merge_one i (get_at merged i) u)"
  have len: "length ?m = max (length merged) (Suc i)"
    using Cons.prems(1) by (rule set_at_length)
  have k: "k < max (length ?m) (Suc i + length us)"
    using Cons.prems(2) len by auto
  have i: "Suc i \<le> length ?m" using len by simp
  note ih = Cons.IH [OF i k]
  show ?case
  proof (cases "Suc i \<le> k \<and> k < Suc i + length us")
    case True
    then have "get_at ?m k = get_at merged k"
      using get_at_set_at [OF Cons.prems(1), of k] by simp
    with True ih show ?thesis by (simp add: Suc_diff_Suc)
  next
    case False
    then have "forEach_merge (Suc i) ?m us ! k = ?m ! k" using ih by auto
    moreover have "k < max (length merged) (Suc i)" using False Cons.prems(2) by auto
    ultimately show ?thesis
      using set_at_nth [OF Cons.prems(1), of k] False by auto
  qed
qed

lemma mergeToolCalls_length:
  "length (mergeToolCalls existing updates) = max (length existing) (length updates)"
  by (simp add: mergeToolCalls_def forEach_merge_length)

lemma mergeToolCalls_nth:
  "k < max (length existing) (length updates) \<Longrightarrow>
   mergeToolCalls existing updates ! k =
     (if k < length updates then merge_one k (get_at existing k) (updates ! k)
      else existing ! k)"
  by (simp add: mergeToolCalls_def forEach_merge_nth)

lemma or_else_fold:
  "foldl (\<lambda>cur v. or_else v cur) d vs = (if supplied vs = [] then d else last (supplied vs))"
  by (induction vs rule: rev_induct) (auto simp: supplied_def or_else_def split: option.splits)

lemma or_else_nonempty: "b \<noteq> [] \<Longrightarrow> or_else a b \<noteq> []"
  by (auto simp: or_else_def split: option.splits)

lemma slot_fragments_snoc:
  "slot_fragments k (bs @ [b]) = slot_fragments k bs @ (if k < length b then [b ! k] else [])"
  by (simp add: slot_fragments_def)

lemma slot_fragments_Nil_iff:
  "length (foldl mergeToolCalls [] bs) \<le> k \<Longrightarrow> slot_fragments k bs = []"
proof (induction bs rule: rev_induct)
  case Nil
  then show ?case by (simp add: slot_fragments_def)
next
  case (snoc b bs)
  then show ?case by (simp add: mergeToolCalls_length slot_fragments_snoc)
qed

lemma merge_one_id: "call_id (merge_one k slot u) =
    or_else (frag_id u) (case slot of Some c \<Rightarrow> call_id c | None \<Rightarrow> ''tool-'' @ show_nat k)"
  by (cases slot) (auto simp: merge_one_def Let_def or_else_def split: option.splits)

lemma merge_one_name: "fn_name (call_function (merge_one k slot u)) =
    or_else (update_name u) (case slot of Some c \<Rightarrow> fn_name (call_function c) | None \<Rightarrow> [])"
  by (cases slot) (auto simp: merge_one_def Let_def)

lemma merge_one_arguments: "fn_arguments (call_function (merge_one k slot u)) =
    (case slot of Some c \<Rightarrow> fn_arguments (call_function c) | None \<Rightarrow> []) @
      or_else (update_arguments u) []"
  by (cases slot) (auto simp: merge_one_def Let_def or_else_def)

lemma accumulated_slot:
  "k < length (foldl mergeToolCalls [] batches) \<Longrightarrow>
   call_id (foldl mergeToolCalls [] batches ! k) =
     foldl (\<lambda>cur v. or_else v cur) (''tool-'' @ show_nat k) (map frag_id (slot_fragments k batches)) \<and>
   fn_name (call_function (foldl mergeToolCalls [] batches ! k)) =
     foldl (\<lambda>cur v. or_else v cur) [] (map update_name (slot_fragments k batches)) \<and>
   fn_arguments (call_function (foldl mergeToolCalls [] batches ! k)) =
     concat (map (\<lambda>f. or_else (update_arguments f) []) (slot_fragments k batches))"
proof (induction batches rule: rev_induct)
  case Nil
  then show ?case by simp
next
  case (snoc b bs)
  let ?prev = "foldl mergeToolCalls [] bs"
  have k: "k < max (length ?prev) (length b)"
    using snoc.prems by (simp add: mergeToolCalls_length)
  show ?case
  proof (cases "k < length b")
    case False
    with k have "k < length ?prev" by simp
    with snoc.IH False k show ?thesis
      by (simp add: mergeToolCalls_nth slot_fragments_snoc)
  next
    case True
    show ?thesis
    proof (cases "k < length ?prev")
      case True
      with snoc.IH \<open>k < length b\<close> k show ?thesis
        by (simp add: mergeToolCalls_nth slot_fragments_snoc get_at_def
            merge_one_id merge_one_name merge_one_arguments)
    next
      case False
      then have "slot_fragments k bs = []"
        by (simp add: slot_fragments_Nil_iff)
      with False \<open>k < length b\<close> k show ?thesis
        by (simp add: mergeToolCalls_nth slot_fragments_snoc get_at_def
            merge_one_id merge_one_name merge_one_arguments)
    qed
  qed
qed

lemma mergeToolCalls_ids:
  assumes "\<forall>tc\<in>set existing. call_id tc \<noteq> []"
  shows "\<forall>tc\<in>set (mergeToolCalls existing updates). call_id tc \<noteq> []"
proof
  fix tc assume "tc \<in> set (mergeToolCalls existing updates)"
  then obtain k where k: "k < max (length existing) (length updates)"
    and tc: "tc = mergeToolCalls existing updates ! k"
    by (auto simp: in_set_conv_nth mergeToolCalls_length)
  show "call_id tc \<noteq> []"
  proof (cases "k < length updates")
    case True
    show ?thesis
    proof (cases "k < length existing")
      case True
      with assms have "call_id (existing ! k) \<noteq> []" by simp
      with True \<open>k < length updates\<close> k show ?thesis
        by (simp add: tc mergeToolCalls_nth merge_one_id get_at_def or_else_nonempty)
    next
      case False
      with True k show ?thesis
        by (simp add: tc mergeToolCalls_nth merge_one_id get_at_def or_else_nonempty)
    qed
  next
    case False
    with k have "k < length existing" by simp
    with assms False k show ?thesis by (simp add: tc mergeToolCalls_nth)
  qed
qed

section \<open>Accumulator theorems\<close>

text \<open>
  C2. Slot \<open>k\<close> of the accumulator, after any sequence of batches merged from the empty
  list: its id is the last non-empty id a fragment of the slot supplied (\<^verbatim>\<open>tool-k\<close> when none
  did), its name the last non-empty name supplied (empty when none did), and its
  arguments the concatenation of the argument fragments in arrival order, a missing or
  empty one adding nothing. In one merge step, an existing slot keeps its id and name
  unless the fragment supplies a non-empty one, and its arguments grow by the fragment's.
\<close>

theorem accumulator_slot:
  "(k < length (foldl mergeToolCalls [] batches) \<longrightarrow>
      call_id (foldl mergeToolCalls [] batches ! k) =
        (if supplied (map frag_id (slot_fragments k batches)) = [] then ''tool-'' @ show_nat k
         else last (supplied (map frag_id (slot_fragments k batches)))) \<and>
      fn_name (call_function (foldl mergeToolCalls [] batches ! k)) =
        (if supplied (map update_name (slot_fragments k batches)) = [] then []
         else last (supplied (map update_name (slot_fragments k batches)))) \<and>
      fn_arguments (call_function (foldl mergeToolCalls [] batches ! k)) =
        concat (map (\<lambda>f. or_else (update_arguments f) []) (slot_fragments k batches))) \<and>
   (k < length existing \<and> k < length updates \<longrightarrow>
      call_id (mergeToolCalls existing updates ! k) =
        or_else (frag_id (updates ! k)) (call_id (existing ! k)) \<and>
      fn_name (call_function (mergeToolCalls existing updates ! k)) =
        or_else (update_name (updates ! k)) (fn_name (call_function (existing ! k))) \<and>
      fn_arguments (call_function (mergeToolCalls existing updates ! k)) =
        fn_arguments (call_function (existing ! k)) @ or_else (update_arguments (updates ! k)) [])"
proof (intro conjI impI)
  assume k: "k < length (foldl mergeToolCalls [] batches)"
  note s = accumulated_slot [OF k]
  show "call_id (foldl mergeToolCalls [] batches ! k) =
        (if supplied (map frag_id (slot_fragments k batches)) = [] then ''tool-'' @ show_nat k
         else last (supplied (map frag_id (slot_fragments k batches))))"
    using s by (simp only: or_else_fold)
  show "fn_name (call_function (foldl mergeToolCalls [] batches ! k)) =
        (if supplied (map update_name (slot_fragments k batches)) = [] then []
         else last (supplied (map update_name (slot_fragments k batches))))"
    using s by (simp only: or_else_fold)
  show "fn_arguments (call_function (foldl mergeToolCalls [] batches ! k)) =
        concat (map (\<lambda>f. or_else (update_arguments f) []) (slot_fragments k batches))"
    using s by simp
next
  assume k: "k < length existing \<and> k < length updates"
  then have n: "mergeToolCalls existing updates ! k =
      merge_one k (Some (existing ! k)) (updates ! k)"
    by (simp add: mergeToolCalls_nth get_at_def less_max_iff_disj)
  show "call_id (mergeToolCalls existing updates ! k) =
        or_else (frag_id (updates ! k)) (call_id (existing ! k))"
    by (simp add: n merge_one_id)
  show "fn_name (call_function (mergeToolCalls existing updates ! k)) =
        or_else (update_name (updates ! k)) (fn_name (call_function (existing ! k)))"
    by (simp add: n merge_one_name)
  show "fn_arguments (call_function (mergeToolCalls existing updates ! k)) =
        fn_arguments (call_function (existing ! k)) @ or_else (update_arguments (updates ! k)) []"
    by (simp add: n merge_one_arguments)
qed

text \<open>One call arriving in three batches; the last fragment carries an empty id and name.\<close>

theorem accumulator_slot_witness:
  \<open>call_id (foldl mergeToolCalls [] example_batches ! 0) = ''call_1'' \<and>
   fn_name (call_function (foldl mergeToolCalls [] example_batches ! 0)) = ''read_file'' \<and>
   fn_arguments (call_function (foldl mergeToolCalls [] example_batches ! 0)) =
     ''{"path":"a.txt"}''\<close>
proof -
  have l: "0 < length (foldl mergeToolCalls [] example_batches)"
    by (simp add: example_batches_def mergeToolCalls_length)
  have f: "slot_fragments 0 example_batches = map hd example_batches"
    by (simp add: slot_fragments_def example_batches_def)
  show ?thesis
    using accumulator_slot [of 0 example_batches "[]" "[]"] l
    unfolding f
    by (simp add: example_batches_def supplied_def update_name_def update_arguments_def
        or_else_def)
qed

section \<open>Orchestrator lemmas\<close>

lemma resolveToolCalls_eq:
  "resolveToolCalls w calls st = st\<lparr>chatHistory := chatHistory st @ map (tool_result w) calls\<rparr>"
  by (induction calls arbitrary: st) (simp_all add: push_def)

lemma parseToolArguments_not_null: "parseToolArguments parse tc \<noteq> JNull"
  by (auto simp: parseToolArguments_def Let_def split: option.splits)

lemma tool_response_cases:
  "tool_response w tc =
     (if fn_name (call_function tc) \<noteq> ''read_file''
      then ''Tool '' @ fn_name (call_function tc) @ '' is not implemented in the TUI.''
      else (case get_prop (parseToolArguments (json_parse w) tc) ''path'' of
              Some (JStr p) \<Rightarrow>
                if p = [] then ''Error reading file: read_file requires a valid path argument''
                else (case readFileSync w p of
                        Inr content \<Rightarrow> content
                      | Inl e \<Rightarrow> ''Error reading file: '' @ error_message e)
            | _ \<Rightarrow> ''Error reading file: read_file requires a valid path argument''))"
proof -
  obtain a where a: "parseToolArguments (json_parse w) tc = a" by simp
  then have "a \<noteq> JNull" using parseToolArguments_not_null by blast
  then show ?thesis
    unfolding tool_response_def handleReadFile_def handleReadFile_try_def Let_def a
    by (cases a; cases "get_prop a ''path''")
       (auto simp: truthy_def split: option.splits json.splits sum.splits)
qed




lemma consume_ids:
  "\<forall>tc\<in>set (snd acc). call_id tc \<noteq> [] \<Longrightarrow>
   \<forall>tc\<in>set (snd (foldl consume_chunk acc chunks)). call_id tc \<noteq> []"
proof (induction chunks arbitrary: acc)
  case Nil
  then show ?case by simp
next
  case (Cons c cs)
  have "\<forall>tc\<in>set (snd (consume_chunk acc c)). call_id tc \<noteq> []"
    using Cons.prems mergeToolCalls_ids [of "snd acc"]
    by (cases acc) (auto simp: consume_chunk_def split: option.splits)
  from Cons.IH [OF this] show ?case by simp
qed



lemma pass_loop_throws:
  "pass_loop w safetyCounter st = Inl e \<Longrightarrow> \<exists>h. stream_reply w h = Inl e"
proof (induction w safetyCounter st rule: pass_loop.induct)
  case (1 w safetyCounter st)
  show ?case
  proof (cases "safetyCounter < maxToolPasses")
    case False
    with "1.prems" show ?thesis by (subst (asm) pass_loop.simps) simp
  next
    case True
    show ?thesis
    proof (cases "stream_reply w (chatHistory st)")
      case (Inl e')
      with True "1.prems" have "e' = e" by (subst (asm) pass_loop.simps) simp
      with Inl show ?thesis by blast
    next
      case (Inr chunks)
      obtain content calls where c: "consume chunks = (content, calls)"
        by (cases "consume chunks")
      show ?thesis
      proof (cases "calls = []")
        case True
        with \<open>safetyCounter < maxToolPasses\<close> Inr c "1.prems" show ?thesis
          by (subst (asm) pass_loop.simps) (simp add: Let_def split: if_splits)
      next
        case False
        with \<open>safetyCounter < maxToolPasses\<close> Inr c "1.prems" have
          "pass_loop w (safetyCounter + 1)
             (resolveToolCalls w calls
               (push (assistant_message content (Some calls))
                  (st\<lparr>stream_requests := stream_requests st @ [chatHistory st]\<rparr>))) = Inl e"
          by (subst (asm) pass_loop.simps) simp
        with "1.IH" [OF \<open>safetyCounter < maxToolPasses\<close> refl Inr c [symmetric]] False
        show ?thesis by simp
      qed
    qed
  qed
qed




lemma tool_result_example:
  "tool_result looping_world example_call =
     \<lparr>msg_role = Function, msg_content = ''hello'', msg_tool_calls = None,
      msg_tool_call_id = Some ''call_1'', msg_name = Some ''read_file''\<rparr>"
  by (simp add: tool_result_def tool_response_def handleReadFile_def handleReadFile_try_def
      parseToolArguments_def or_else_def looping_world_def parse_examples_def example_call_def
      example_files_def truthy_def)

lemma trimEnd_no_trailing: "filter (ends_with (trimEnd s)) whitespace = []"
proof (induction s rule: trimEnd.induct)
  case (1 s)
  show ?case
  proof (cases "filter (ends_with s) whitespace")
    case Nil
    then show ?thesis by (subst trimEnd.simps) simp
  next
    case (Cons w ws)
    with "1.IH" [OF Cons] show ?thesis by (subst trimEnd.simps) simp
  qed
qed

lemma trimEnd_prefix: "\<exists>t. s = trimEnd s @ t"
proof (induction s rule: trimEnd.induct)
  case (1 s)
  show ?case
  proof (cases "filter (ends_with s) whitespace")
    case Nil
    then show ?thesis by (subst trimEnd.simps) simp
  next
    case (Cons w ws)
    from "1.IH" [OF Cons] obtain t where
      t: "take (length s - length w) s = trimEnd (take (length s - length w) s) @ t"
      by blast
    have "s = take (length s - length w) s @ drop (length s - length w) s" by simp
    then have "s = trimEnd (take (length s - length w) s) @ t @ drop (length s - length w) s"
      using t by (metis append.assoc)
    then show ?thesis using Cons by (subst trimEnd.simps) auto
  qed
qed


section \<open>Orchestrator theorems\<close>





text \<open>
  C8. \<^verbatim>\<open>resolveToolCalls\<close> returns a state (it has no path that throws: the only
  throwing code, in \<^verbatim>\<open>handleReadFile\<close>, sits in its \<^verbatim>\<open>try\<close>) whose transcript gained one
  tool-result message per call, in order, correlated by the call's id. A tool other than
  \<^verbatim>\<open>read_file\<close> gets the text "Tool ... is not implemented in the TUI."; \<^verbatim>\<open>read_file\<close> gets
  the file's content, or "Error reading file: ..." with the message of the error when the
  path argument is missing, empty or not a string, or when the file cannot be read. An
  error that leaves \<^verbatim>\<open>streamAssistantResponse\<close> is one a streaming request threw, never one
  of a tool.
\<close>

theorem tool_calls_resolve_to_messages:
  "(\<exists>results.
     resolveToolCalls w toolCalls st = st\<lparr>chatHistory := chatHistory st @ results\<rparr> \<and>
     length results = length toolCalls \<and>
     (\<forall>i<length toolCalls.
        msg_role (results ! i) = Function \<and>
        msg_tool_call_id (results ! i) = Some (call_id (toolCalls ! i)) \<and>
        msg_name (results ! i) = Some (fn_name (call_function (toolCalls ! i))) \<and>
        msg_content (results ! i) =
          (if fn_name (call_function (toolCalls ! i)) \<noteq> ''read_file''
           then ''Tool '' @ fn_name (call_function (toolCalls ! i)) @
                '' is not implemented in the TUI.''
           else (case get_prop (parseToolArguments (json_parse w) (toolCalls ! i)) ''path'' of
                   Some (JStr p) \<Rightarrow>
                     if p = [] then ''Error reading file: read_file requires a valid path argument''
                     else (case readFileSync w p of
                             Inr content \<Rightarrow> content
                           | Inl e \<Rightarrow> ''Error reading file: '' @ error_message e)
                 | _ \<Rightarrow> ''Error reading file: read_file requires a valid path argument'')))) \<and>
   (streamAssistantResponse w st = Inl e \<longrightarrow> (\<exists>h. stream_reply w h = Inl e))"
proof -
  let ?results = "map (tool_result w) toolCalls"
  have "\<forall>i<length toolCalls. msg_content (?results ! i) = tool_response w (toolCalls ! i)"
    by (simp add: tool_result_def)
  then show ?thesis
    using pass_loop_throws [of w 0 st e]
    by (intro conjI exI [of _ ?results])
      (simp_all add: resolveToolCalls_eq tool_result_def tool_response_cases
        streamAssistantResponse_def)
qed

text \<open>A readable file and an unknown tool.\<close>

theorem tool_calls_resolve_witness:
  "resolveToolCalls looping_world
     [example_call, example_call\<lparr>call_id := ''call_2'',
                       call_function := \<lparr>fn_name = ''write_file'', fn_arguments = ''{}''\<rparr>\<rparr>]
     user_turn =
   user_turn\<lparr>chatHistory := chatHistory user_turn @
     [\<lparr>msg_role = Function, msg_content = ''hello'', msg_tool_calls = None,
       msg_tool_call_id = Some ''call_1'', msg_name = Some ''read_file''\<rparr>,
      \<lparr>msg_role = Function, msg_content = ''Tool write_file is not implemented in the TUI.'',
       msg_tool_calls = None, msg_tool_call_id = Some ''call_2'',
       msg_name = Some ''write_file''\<rparr>]\<rparr>"
proof -
  let ?calls = "[example_call, example_call\<lparr>call_id := ''call_2'',
                       call_function := \<lparr>fn_name = ''write_file'', fn_arguments = ''{}''\<rparr>\<rparr>]"
  from tool_calls_resolve_to_messages [of looping_world ?calls user_turn, THEN conjunct1]
  obtain results where r:
    "resolveToolCalls looping_world ?calls user_turn =
       user_turn\<lparr>chatHistory := chatHistory user_turn @ results\<rparr>"
    "length results = length ?calls"
    "\<forall>i<length ?calls.
        msg_role (results ! i) = Function \<and>
        msg_tool_call_id (results ! i) = Some (call_id (?calls ! i)) \<and>
        msg_name (results ! i) = Some (fn_name (call_function (?calls ! i))) \<and>
        msg_content (results ! i) =
          (if fn_name (call_function (?calls ! i)) \<noteq> ''read_file''
           then ''Tool '' @ fn_name (call_function (?calls ! i)) @
                '' is not implemented in the TUI.''
           else (case get_prop (parseToolArguments (json_parse looping_world) (?calls ! i)) ''path'' of
                   Some (JStr p) \<Rightarrow>
                     if p = [] then ''Error reading file: read_file requires a valid path argument''
                     else (case readFileSync looping_world p of
                             Inr content \<Rightarrow> content
                           | Inl e \<Rightarrow> ''Error reading file: '' @ error_message e)
                 | _ \<Rightarrow> ''Error reading file: read_file requires a valid path argument''))"
    by (elim exE conjE) (rule that; assumption)
  have "resolveToolCalls looping_world ?calls user_turn =
     user_turn\<lparr>chatHistory := chatHistory user_turn @
       [tool_result looping_world example_call,
        tool_result looping_world (example_call\<lparr>call_id := ''call_2'',
                       call_function := \<lparr>fn_name = ''write_file'', fn_arguments = ''{}''\<rparr>\<rparr>)]\<rparr>"
    by (simp add: push_def)
  then show ?thesis
    using r(1) by (simp add: tool_result_example) (simp add: tool_result_def tool_response_def)
qed

text \<open>
  C10. Every accumulated tool call has a non-empty id, after any sequence of merges and so
  at the end of any stream; a slot created by a fragment without an id gets \<^verbatim>\<open>tool-k\<close>, with
  \<open>k\<close> its index; and every tool-result message \<^verbatim>\<open>resolveToolCalls\<close> appends for the
  accumulated calls carries a non-empty \<^verbatim>\<open>tool_call_id\<close>.
\<close>

theorem accumulated_ids_nonempty:
  "(\<forall>tc\<in>set (foldl mergeToolCalls [] batches). call_id tc \<noteq> []) \<and>
   (\<forall>tc\<in>set (snd (consume chunks)). call_id tc \<noteq> []) \<and>
   (length existing \<le> k \<and> k < length updates \<and>
    (frag_id (updates ! k) = None \<or> frag_id (updates ! k) = Some []) \<longrightarrow>
      call_id (mergeToolCalls existing updates ! k) = ''tool-'' @ show_nat k) \<and>
   (\<forall>m\<in>set (drop (length (chatHistory st))
               (chatHistory (resolveToolCalls w (snd (consume chunks)) st))).
      \<exists>i. msg_tool_call_id m = Some i \<and> i \<noteq> [])"
proof (intro conjI)
  show "\<forall>tc\<in>set (foldl mergeToolCalls [] batches). call_id tc \<noteq> []"
  proof (induction batches rule: rev_induct)
    case Nil
    show ?case by simp
  next
    case (snoc b bs)
    then show ?case using mergeToolCalls_ids by simp
  qed
  show ids: "\<forall>tc\<in>set (snd (consume chunks)). call_id tc \<noteq> []"
    using consume_ids [of "([], [])" chunks] by (simp add: consume_def)
  show "length existing \<le> k \<and> k < length updates \<and>
    (frag_id (updates ! k) = None \<or> frag_id (updates ! k) = Some []) \<longrightarrow>
      call_id (mergeToolCalls existing updates ! k) = ''tool-'' @ show_nat k"
    by (auto simp: mergeToolCalls_nth merge_one_id get_at_def or_else_def)
  show "\<forall>m\<in>set (drop (length (chatHistory st))
               (chatHistory (resolveToolCalls w (snd (consume chunks)) st))).
      \<exists>i. msg_tool_call_id m = Some i \<and> i \<noteq> []"
    using ids by (auto simp: resolveToolCalls_eq tool_result_def)
qed

text \<open>Two fragments without an id arrive in one batch.\<close>

theorem accumulated_ids_nonempty_witness:
  "call_id (mergeToolCalls [] [anonymous_fragment, anonymous_fragment] ! 1) = ''tool-1'' \<and>
   map call_id (foldl mergeToolCalls [] [[anonymous_fragment, anonymous_fragment]]) =
     [''tool-0'', ''tool-1'']"
proof -
  have s: "show_nat 0 = ''0''" "show_nat (Suc 0) = ''1''"
    by (simp_all add: show_nat.simps digit_char_def)
  have "call_id (mergeToolCalls [] [anonymous_fragment, anonymous_fragment] ! 1) = ''tool-1''"
    using accumulated_ids_nonempty [of "[]" "[]" "[]" 1 "[anonymous_fragment, anonymous_fragment]"
        "\<lparr>chatHistory = [], system_notes = [], stream_requests = []\<rparr>" looping_world]
    by (simp add: anonymous_fragment_def s)
  moreover have "map call_id (foldl mergeToolCalls [] [[anonymous_fragment, anonymous_fragment]]) =
     [''tool-0'', ''tool-1'']"
    by (simp add: mergeToolCalls_def set_at_def get_at_def merge_one_id or_else_def
        anonymous_fragment_def s)
  ultimately show ?thesis by simp
qed

section \<open>Login lemmas and theorem\<close>

lemma poll_loop_spec:
  "attempts \<le> maxAttempts \<Longrightarrow>
   \<exists>m. attempts + m \<le> maxAttempts \<and>
       snd (poll_loop env info status attempts trace) =
         trace @ concat (replicate m [Sleep (interval info * 1000), Poll (device info)]) \<and>
       (\<forall>k. attempts \<le> k \<and> k + 1 < attempts + m \<longrightarrow>
            poll_call env k (device info) = Inr ''pending'') \<and>
       fst (poll_loop env info status attempts trace) =
         (if m = 0 then Inr status else poll_call env (attempts + m - 1) (device info)) \<and>
       (m = 0 \<longrightarrow> status \<noteq> ''pending'' \<or> attempts = maxAttempts) \<and>
       (0 < m \<longrightarrow> status = ''pending'') \<and>
       (0 < m \<and> attempts + m < maxAttempts \<longrightarrow>
          poll_call env (attempts + m - 1) (device info) \<noteq> Inr ''pending'')"
proof (induction env info status attempts trace rule: poll_loop.induct)
  case (1 env info status attempts trace)
  let ?step = "[Sleep (interval info * 1000), Poll (device info)]"
  show ?case
  proof (cases "status = ''pending'' \<and> attempts < maxAttempts")
    case False
    then have "poll_loop env info status attempts trace = (Inr status, trace)"
      by (subst poll_loop.simps) auto
    with False "1.prems" show ?thesis by (intro exI [of _ 0]) auto
  next
    case True
    show ?thesis
    proof (cases "poll_call env attempts (device info)")
      case (Inl e)
      with True have "poll_loop env info status attempts trace = (Inl e, trace @ ?step)"
        by (subst poll_loop.simps) simp
      with True Inl show ?thesis by (intro exI [of _ 1]) auto
    next
      case (Inr status1)
      with True have eq: "poll_loop env info status attempts trace =
          poll_loop env info status1 (attempts + 1) (trace @ ?step)"
        by (subst poll_loop.simps) simp
      from True have "attempts + 1 \<le> maxAttempts" by simp
      from "1.IH" [OF True refl Inr this] obtain m where
        m: "attempts + 1 + m \<le> maxAttempts"
          "snd (poll_loop env info status1 (attempts + 1) (trace @ ?step)) =
             (trace @ ?step) @ concat (replicate m ?step)"
          "\<forall>k. attempts + 1 \<le> k \<and> k + 1 < attempts + 1 + m \<longrightarrow>
               poll_call env k (device info) = Inr ''pending''"
          "fst (poll_loop env info status1 (attempts + 1) (trace @ ?step)) =
             (if m = 0 then Inr status1 else poll_call env (attempts + 1 + m - 1) (device info))"
          "m = 0 \<longrightarrow> status1 \<noteq> ''pending'' \<or> attempts + 1 = maxAttempts"
          "0 < m \<longrightarrow> status1 = ''pending''"
          "0 < m \<and> attempts + 1 + m < maxAttempts \<longrightarrow>
             poll_call env (attempts + 1 + m - 1) (device info) \<noteq> Inr ''pending''"
        by blast
      have pend: "poll_call env k (device info) = Inr ''pending''"
        if "attempts \<le> k" "k + 1 < attempts + Suc m" for k
      proof (cases "k = attempts")
        case True
        with that have "0 < m" by simp
        with m(6) Inr True show ?thesis by simp
      next
        case False
        with that m(3) show ?thesis by simp
      qed
      show ?thesis
      proof (intro exI [of _ "Suc m"] conjI)
        show "attempts + Suc m \<le> maxAttempts" using m(1) by simp
        show "snd (poll_loop env info status attempts trace) =
                trace @ concat (replicate (Suc m) ?step)"
          using m(2) eq by simp
        show "\<forall>k. attempts \<le> k \<and> k + 1 < attempts + Suc m \<longrightarrow>
                poll_call env k (device info) = Inr ''pending''"
          using pend by blast
        show "fst (poll_loop env info status attempts trace) =
                (if Suc m = 0 then Inr status
                 else poll_call env (attempts + Suc m - 1) (device info))"
          using m(4) eq Inr by (cases m) simp_all
        show "Suc m = 0 \<longrightarrow> status \<noteq> ''pending'' \<or> attempts = maxAttempts" by simp
        show "0 < Suc m \<longrightarrow> status = ''pending''" using True by simp
        show "0 < Suc m \<and> attempts + Suc m < maxAttempts \<longrightarrow>
                poll_call env (attempts + Suc m - 1) (device info) \<noteq> Inr ''pending''"
          using m(5,7) Inr by (cases m) auto
      qed
    qed
  qed
qed

lemma poll_calls_replicate:
  "poll_calls (concat (replicate n [Sleep ms, Poll d])) = n"
  by (induction n) (simp_all add: poll_calls_def)

lemma slept_ms_replicate:
  "slept_ms (concat (replicate n [Sleep ms, Poll d])) = n * ms"
  by (induction n) (simp_all add: slept_ms_def)

lemma login_polls:
  assumes "authorize env = Inr info"
  shows "\<exists>n. 1 \<le> n \<and> n \<le> maxAttempts \<and>
       snd (login env) = concat (replicate n [Sleep (interval info * 1000), Poll (device info)]) \<and>
       (\<forall>k. k + 1 < n \<longrightarrow> poll_call env k (device info) = Inr ''pending'') \<and>
       (n < maxAttempts \<longrightarrow> poll_call env (n - 1) (device info) \<noteq> Inr ''pending'') \<and>
       (fst (login env) = LoggedIn \<longleftrightarrow> poll_call env (n - 1) (device info) = Inr ''complete'')"
proof -
  let ?r = "poll_loop env info ''pending'' 0 []"
  from poll_loop_spec [OF le0, of env info "''pending''" "[]"] obtain m where
    raw: "0 + m \<le> maxAttempts"
      "snd ?r = [] @ concat (replicate m [Sleep (interval info * 1000), Poll (device info)])"
      "\<forall>k. 0 \<le> k \<and> k + 1 < 0 + m \<longrightarrow> poll_call env k (device info) = Inr ''pending''"
      "fst ?r = (if m = 0 then Inr ''pending'' else poll_call env (0 + m - 1) (device info))"
      "m = 0 \<longrightarrow> ''pending'' \<noteq> ''pending'' \<or> 0 = maxAttempts"
      "0 < m \<and> 0 + m < maxAttempts \<longrightarrow>
         poll_call env (0 + m - 1) (device info) \<noteq> Inr ''pending''"
    by (elim exE conjE) (rule that; assumption)
  have m: "m \<le> maxAttempts"
      "snd ?r = concat (replicate m [Sleep (interval info * 1000), Poll (device info)])"
      "\<forall>k. k + 1 < m \<longrightarrow> poll_call env k (device info) = Inr ''pending''"
      "fst ?r = (if m = 0 then Inr ''pending'' else poll_call env (m - 1) (device info))"
      "m = 0 \<longrightarrow> 0 = maxAttempts"
      "0 < m \<and> m < maxAttempts \<longrightarrow> poll_call env (m - 1) (device info) \<noteq> Inr ''pending''"
    using raw by simp_all
  from m(5) have pos: "0 < m" by (auto simp: maxAttempts_def)
  have out: "login env = (if fst ?r = Inr ''complete'' then LoggedIn else Exit1, snd ?r)"
    using assms by (cases ?r) (auto simp: login_def split: sum.splits)
  show ?thesis
    by (rule exI [of _ m]) (use m pos out in auto)
qed

text \<open>
  C9. After a successful \<^verbatim>\<open>authorize\<close>, \<^verbatim>\<open>login\<close> makes \<open>n\<close> poll calls, between 1 and 120,
  each right after a sleep of the session's interval; every call but the last answered
  \<^verbatim>\<open>pending\<close>, and the last did not unless the budget of 120 is used up; the login
  succeeds exactly when the last call answered \<^verbatim>\<open>complete\<close> and fails otherwise. With an
  interval of 5 seconds and the answers pending, pending, pending, complete, it succeeds
  after 4 poll calls and 20 seconds of sleep.
\<close>

theorem login_polling:
  assumes "authorize env = Inr info"
  shows "(\<exists>n. 1 \<le> n \<and> n \<le> 120 \<and>
       snd (login env) = concat (replicate n [Sleep (interval info * 1000), Poll (device info)]) \<and>
       (\<forall>k. k + 1 < n \<longrightarrow> poll_call env k (device info) = Inr ''pending'') \<and>
       (n < 120 \<longrightarrow> poll_call env (n - 1) (device info) \<noteq> Inr ''pending'') \<and>
       (fst (login env) = LoggedIn \<longleftrightarrow> poll_call env (n - 1) (device info) = Inr ''complete'') \<and>
       (fst (login env) \<noteq> LoggedIn \<longleftrightarrow> fst (login env) = Exit1)) \<and>
     (interval info = 5 \<and>
      poll_call env 0 (device info) = Inr ''pending'' \<and>
      poll_call env 1 (device info) = Inr ''pending'' \<and>
      poll_call env 2 (device info) = Inr ''pending'' \<and>
      poll_call env 3 (device info) = Inr ''complete'' \<longrightarrow>
      fst (login env) = LoggedIn \<and> poll_calls (snd (login env)) = 4 \<and>
      slept_ms (snd (login env)) = 20000 \<and> 15000 \<le> slept_ms (snd (login env)))"
proof -
  from login_polls [OF assms] obtain n where
    n: "1 \<le> n" "n \<le> maxAttempts"
      "snd (login env) = concat (replicate n [Sleep (interval info * 1000), Poll (device info)])"
      "\<forall>k. k + 1 < n \<longrightarrow> poll_call env k (device info) = Inr ''pending''"
      "n < maxAttempts \<longrightarrow> poll_call env (n - 1) (device info) \<noteq> Inr ''pending''"
      "fst (login env) = LoggedIn \<longleftrightarrow> poll_call env (n - 1) (device info) = Inr ''complete''"
    by blast
  have general: "\<exists>n. 1 \<le> n \<and> n \<le> 120 \<and>
       snd (login env) = concat (replicate n [Sleep (interval info * 1000), Poll (device info)]) \<and>
       (\<forall>k. k + 1 < n \<longrightarrow> poll_call env k (device info) = Inr ''pending'') \<and>
       (n < 120 \<longrightarrow> poll_call env (n - 1) (device info) \<noteq> Inr ''pending'') \<and>
       (fst (login env) = LoggedIn \<longleftrightarrow> poll_call env (n - 1) (device info) = Inr ''complete'') \<and>
       (fst (login env) \<noteq> LoggedIn \<longleftrightarrow> fst (login env) = Exit1)"
    by (rule exI [of _ n]) (use n in \<open>auto simp: maxAttempts_def intro: login_outcome.exhaust\<close>)
  have scenario: "fst (login env) = LoggedIn \<and> poll_calls (snd (login env)) = 4 \<and>
      slept_ms (snd (login env)) = 20000 \<and> 15000 \<le> slept_ms (snd (login env))"
    if s: "interval info = 5"
      "poll_call env 0 (device info) = Inr ''pending''"
      "poll_call env 1 (device info) = Inr ''pending''"
      "poll_call env 2 (device info) = Inr ''pending''"
      "poll_call env 3 (device info) = Inr ''complete''"
  proof -
    have "n = 4"
    proof (rule ccontr)
      assume "n \<noteq> 4"
      then consider "n = 1" | "n = 2" | "n = 3" | "4 < n" using n(1) by linarith
      then show False
      proof cases
        case 4
        then have "poll_call env 3 (device info) = Inr ''pending''" using n(4) by simp
        with s(5) show False by simp
      qed (use n(5) s in \<open>auto simp: maxAttempts_def\<close>)
    qed
    with n s show ?thesis
      by (simp add: poll_calls_replicate slept_ms_replicate)
  qed
  from general scenario show ?thesis by blast
qed

text \<open>The device authorization that completes at the fourth poll.\<close>

theorem login_polling_witness:
  "fst (login example_auth) = LoggedIn \<and> poll_calls (snd (login example_auth)) = 4 \<and>
   slept_ms (snd (login example_auth)) = 20000"
  using login_polling [of example_auth "\<lparr>device = ''dev-1'', user = ''ABCD-1234'',
                        verification = ''https://github.com/login/device'', interval = 5\<rparr>"]
  by (simp add: example_auth_def)


end
